theory Spec2Isabelle
  imports Main
begin

section \<open>Values, mappings and exceptions\<close>

text \<open>
  The configuration engine of torf-cli (\<^verbatim>\<open>torfcli/_configfile.py\<close>) works on Python
  values of four kinds: the flag value \<^verbatim>\<open>True\<close>, strings, lists and dictionaries.
  A dictionary keeps its keys in insertion order, so it is an association list here;
  a store to an existing key keeps the key's position, a store to a new key appends.
  Characters are code points below 256.
\<close>

datatype pyval =
    VBool bool
  | VStr string
  | VList "pyval list"
  | VDict "(string \<times> pyval) list"

type_synonym dict = "(string \<times> pyval) list"

datatype pytype = TBool | TStr | TList | TDict

fun type_of :: "pyval \<Rightarrow> pytype" where
  "type_of (VBool b) = TBool"
| "type_of (VStr s) = TStr"
| "type_of (VList xs) = TList"
| "type_of (VDict d) = TDict"

definition getitem :: "dict \<Rightarrow> string \<Rightarrow> pyval option" where
  "getitem d k = map_of d k"

fun setitem :: "dict \<Rightarrow> string \<Rightarrow> pyval \<Rightarrow> dict" where
  "setitem [] k v = [(k, v)]"
| "setitem ((k', v') # d) k v =
     (if k' = k then (k, v) # d else (k', v') # setitem d k v)"

definition keys :: "dict \<Rightarrow> string list" where
  "keys d = map fst d"

text \<open>
  \<^verbatim>\<open>ConfigError(name, value=None, msg=None)\<close> keeps the value only when it is truthy
  and fills in a default reason when none is given. The value handed over for a repeated
  single-value option is the joined \<^verbatim>\<open>repr\<close> of the items, kept here as the items
  themselves (\<open>Joined\<close>); that string is empty exactly when there are no items.
  The other constructors are the built-in exceptions the three functions can raise.
\<close>

datatype errval = Plain pyval | Joined "pyval list"

datatype exn =
    ConfigError pyval "errval option" string
  | KeyError pyval
  | IndexError
  | AttributeError
  | TypeError

fun truthy :: "pyval \<Rightarrow> bool" where
  "truthy (VBool b) = b"
| "truthy (VStr s) = (s \<noteq> [])"
| "truthy (VList xs) = (xs \<noteq> [])"
| "truthy (VDict d) = (d \<noteq> [])"

fun truthy_errval :: "errval option \<Rightarrow> bool" where
  "truthy_errval None = False"
| "truthy_errval (Some (Plain v)) = truthy v"
| "truthy_errval (Some (Joined xs)) = (xs \<noteq> [])"

definition config_error :: "pyval \<Rightarrow> errval option \<Rightarrow> string option \<Rightarrow> exn" where
  "config_error name val msg =
     (if truthy_errval val
      then ConfigError name val (case msg of None \<Rightarrow> ''Invalid value'' | Some m \<Rightarrow> m)
      else ConfigError name None (case msg of None \<Rightarrow> ''Invalid argument'' | Some m \<Rightarrow> m))"

section \<open>The parser\<close>

text \<open>
  Whitespace as \<^verbatim>\<open>str.strip()\<close> and the pattern \<^verbatim>\<open>\s\<close> see it, among the code
  points below 256: tab to carriage return, the four separators 28 to 31, the space,
  NEL (133) and the no-break space (160).
\<close>

definition isspace :: "char \<Rightarrow> bool" where
  "isspace c =
     (let n = (of_char c :: nat)
      in (9 \<le> n \<and> n \<le> 13) \<or> (28 \<le> n \<and> n \<le> 32) \<or> n = 133 \<or> n = 160)"

definition strip :: "string \<Rightarrow> string" where
  "strip s = rev (dropWhile isspace (rev (dropWhile isspace s)))"

text \<open>
  \<^verbatim>\<open>_re_bool = ^(\S+)$\<close>: the whole text is one run of non-whitespace characters
  (\<^verbatim>\<open>$\<close> also matches just before a final line feed). The result is group 1.
\<close>

definition re_bool :: "string \<Rightarrow> string option" where
  "re_bool s =
     (let t = takeWhile (\<lambda>c. \<not> isspace c) s;
          r = dropWhile (\<lambda>c. \<not> isspace c) s
      in if t \<noteq> [] \<and> (r = [] \<or> r = [CHR 0x0A]) then Some t else None)"

text \<open>
  \<^verbatim>\<open>_re_assign = ^(\S+)\s*=\s*(.*)\s*$\<close>, matched with backtracking. \<open>re_rest\<close> is
  the part after the equals sign: the leading whitespace is skipped, group 2 runs to
  the first line feed (or the end), and only whitespace may follow it. \<open>re_assign_from\<close>
  tries the lengths of group 1 from the longest run of non-whitespace characters
  downwards: after group 1 and any whitespace, an equals sign must come next.
  The result is the pair of group 1 and group 2.
\<close>

definition re_rest :: "string \<Rightarrow> string option" where
  "re_rest r =
     (let r' = dropWhile isspace r;
          g = takeWhile (\<lambda>c. c \<noteq> CHR 0x0A) r';
          t = dropWhile (\<lambda>c. c \<noteq> CHR 0x0A) r'
      in if list_all isspace t then Some g else None)"

fun re_assign_from :: "string \<Rightarrow> nat \<Rightarrow> (string \<times> string) option" where
  "re_assign_from s 0 = None"
| "re_assign_from s (Suc j) =
     (case dropWhile isspace (drop (Suc j) s) of
        [] \<Rightarrow> re_assign_from s j
      | c # r \<Rightarrow>
          if c = CHR ''=''
          then (case re_rest r of
                  Some g \<Rightarrow> Some (take (Suc j) s, g)
                | None \<Rightarrow> re_assign_from s j)
          else re_assign_from s j)"

definition re_assign :: "string \<Rightarrow> (string \<times> string) option" where
  "re_assign s = re_assign_from s (length (takeWhile (\<lambda>c. \<not> isspace c) s))"

text \<open>
  The state of the loop in \<^verbatim>\<open>read\<close>: the dictionary \<^verbatim>\<open>cfg\<close> and the scope
  \<^verbatim>\<open>subcfg\<close>. \<^verbatim>\<open>subcfg\<close> is an alias: of \<^verbatim>\<open>cfg\<close> itself until the first profile
  header (scope \<open>None\<close>), and afterwards of the dictionary stored in \<^verbatim>\<open>cfg\<close> under the
  name of the latest header (scope \<open>Some name\<close>). A store through \<^verbatim>\<open>subcfg\<close> is
  therefore a store into \<^verbatim>\<open>cfg\<close>.
\<close>

type_synonym rstate = "dict \<times> string option"

definition subcfg :: "rstate \<Rightarrow> dict" where
  "subcfg st =
     (case snd st of
        None \<Rightarrow> fst st
      | Some p \<Rightarrow> (case getitem (fst st) p of Some (VDict d) \<Rightarrow> d | _ \<Rightarrow> []))"

definition sub_setitem :: "rstate \<Rightarrow> string \<Rightarrow> pyval \<Rightarrow> rstate" where
  "sub_setitem st name v =
     (case snd st of
        None \<Rightarrow> (setitem (fst st) name v, None)
      | Some p \<Rightarrow> (setitem (fst st) p (VDict (setitem (subcfg st) name v)), Some p))"

text \<open>
  The quote test reads \<^verbatim>\<open>value[0]\<close> and \<^verbatim>\<open>value[-1]\<close>, which raise
  \<^verbatim>\<open>IndexError\<close> on the empty string; \<^verbatim>\<open>value[1:-1]\<close> drops the first and the last
  character.
\<close>

definition unquote :: "string \<Rightarrow> exn + string" where
  "unquote v =
     (if v = [] then Inl IndexError
      else if (hd v = last v \<and> last v = CHR 0x22) \<or> (hd v = last v \<and> last v = CHR 0x27)
      then Inr (butlast (tl v))
      else Inr v)"

definition assign :: "rstate \<Rightarrow> string \<Rightarrow> string \<Rightarrow> rstate" where
  "assign st name v =
     (case getitem (subcfg st) name of
        Some old \<Rightarrow>
          (case old of
             VList xs \<Rightarrow> sub_setitem st name (VList (xs @ [VStr v]))
           | _ \<Rightarrow> sub_setitem st name (VList ([old] @ [VStr v])))
      | None \<Rightarrow> sub_setitem st name (VStr v))"

definition read_line :: "rstate \<Rightarrow> string \<Rightarrow> exn + rstate" where
  "read_line st line =
     (if line = [] \<or> hd line = CHR ''#'' then Inr st
      else if hd line = CHR ''['' \<and> last line = CHR '']''
      then (let profile_name = butlast (tl line)
            in Inr (setitem (fst st) profile_name (VDict []), Some profile_name))
      else (case re_bool line of
              Some name \<Rightarrow> Inr (sub_setitem st name (VBool True))
            | None \<Rightarrow>
                (case re_assign line of
                   Some (name, g2) \<Rightarrow>
                     (case unquote (strip g2) of
                        Inl e \<Rightarrow> Inl e
                      | Inr v \<Rightarrow> Inr (assign st name v))
                 | None \<Rightarrow> Inr st)))"

fun read_loop :: "string list \<Rightarrow> rstate \<Rightarrow> exn + rstate" where
  "read_loop [] st = Inr st"
| "read_loop (l # ls) st =
     (case read_line st (strip l) of
        Inl e \<Rightarrow> Inl e
      | Inr st' \<Rightarrow> read_loop ls st')"

text \<open>
  \<^verbatim>\<open>read\<close> on the lines of the file, as \<^verbatim>\<open>f.readlines()\<close> delivers them. Opening the
  file is outside the model.
\<close>

definition read :: "string list \<Rightarrow> exn + dict" where
  "read lines =
     (case read_loop lines ([], None) of
        Inl e \<Rightarrow> Inl e
      | Inr st \<Rightarrow> Inr (fst st))"

text \<open>
  The tests \<^verbatim>\<open>read\<close> makes on a trimmed line, in its order, as a classification of
  the line: comment or blank, profile header, bare token, assignment (with the two
  groups of \<^verbatim>\<open>_re_assign\<close>), or a line that matches nothing and is passed over.
\<close>

datatype line_kind =
    Skipped
  | Header string
  | Flag string
  | Assignment string string
  | Ignored

definition classify :: "string \<Rightarrow> line_kind" where
  "classify line =
     (if line = [] \<or> hd line = CHR ''#'' then Skipped
      else if hd line = CHR ''['' \<and> last line = CHR '']'' then Header (butlast (tl line))
      else (case re_bool line of
              Some name \<Rightarrow> Flag name
            | None \<Rightarrow>
                (case re_assign line of
                   Some (name, g2) \<Rightarrow> Assignment name g2
                 | None \<Rightarrow> Ignored)))"

definition is_header :: "string \<Rightarrow> bool" where
  "is_header l = (case classify (strip l) of Header n \<Rightarrow> True | _ \<Rightarrow> False)"

text \<open>
  \<open>other_line key l\<close>: the line \<open>l\<close> of the file neither opens a profile nor names
  \<open>key\<close>. \<open>closes x ls\<close>: the lines \<open>ls\<close> are empty or begin with a profile header,
  and none of them is the header \<^verbatim>\<open>[x]\<close>.
\<close>

definition other_line :: "string \<Rightarrow> string \<Rightarrow> bool" where
  "other_line key l =
     (case classify (strip l) of
        Header n \<Rightarrow> False
      | Flag n \<Rightarrow> n \<noteq> key
      | Assignment n g \<Rightarrow> n \<noteq> key
      | _ \<Rightarrow> True)"

definition closes :: "string \<Rightarrow> string list \<Rightarrow> bool" where
  "closes x ls =
     ((case ls of [] \<Rightarrow> True | h # t \<Rightarrow> is_header h)
      \<and> list_all (\<lambda>l. classify (strip l) \<noteq> Header x) ls)"

text \<open>
  Predicates on mappings: \<open>no_dicts\<close> holds of a mapping without dictionary values,
  \<open>flat\<close> of one whose dictionary values (the profiles) hold none, \<open>profiles_within\<close>
  of one whose profiles only have keys of the schema. \<open>scoped\<close> is what the loop of
  \<^verbatim>\<open>read\<close> keeps true of its state: before the first header no entry is a
  dictionary, and afterwards the name of the scope is bound to a dictionary.
\<close>

definition no_dicts :: "dict \<Rightarrow> bool" where
  "no_dicts d = list_all (\<lambda>kv. type_of (snd kv) \<noteq> TDict) d"

definition flat :: "dict \<Rightarrow> bool" where
  "flat d = list_all (\<lambda>kv. case snd kv of VDict p \<Rightarrow> no_dicts p | _ \<Rightarrow> True) d"

definition profiles_within :: "dict \<Rightarrow> dict \<Rightarrow> bool" where
  "profiles_within defaults d =
     list_all (\<lambda>kv. case snd kv of
                       VDict p \<Rightarrow> list_all (\<lambda>k. k \<in> set (keys defaults)) (keys p)
                     | _ \<Rightarrow> True) d"

definition scoped :: "rstate \<Rightarrow> bool" where
  "scoped st =
     (flat (fst st) \<and>
      (case snd st of
         None \<Rightarrow> no_dicts (fst st)
       | Some p \<Rightarrow> (case getitem (fst st) p of Some (VDict d) \<Rightarrow> True | _ \<Rightarrow> False)))"

section \<open>The validator\<close>

fun validate_loop :: "dict \<Rightarrow> dict \<Rightarrow> dict \<Rightarrow> exn + dict" where
  "validate_loop [] defaults result = Inr result"
| "validate_loop ((name, value_cfgfile) # rest) defaults result =
     (case value_cfgfile of
        VDict d \<Rightarrow>
          (case validate_loop d defaults [] of
             Inl e \<Rightarrow> Inl e
           | Inr r \<Rightarrow> validate_loop rest defaults (setitem result name (VDict r)))
      | _ \<Rightarrow>
          (case getitem defaults name of
             None \<Rightarrow> Inl (config_error (VStr name) None None)
           | Some value_default \<Rightarrow>
               if type_of value_cfgfile \<noteq> type_of value_default
               then (if type_of value_default = TList
                     then validate_loop rest defaults (setitem result name (VList [value_cfgfile]))
                     else if type_of value_cfgfile = TList
                     then Inl (config_error (VStr name)
                                 (Some (Joined (case value_cfgfile of VList xs \<Rightarrow> xs | _ \<Rightarrow> [])))
                                 (Some ''Multiple values not allowed''))
                     else if type_of value_default = TBool
                     then Inl (config_error (VStr name) (Some (Plain value_cfgfile))
                                 (Some ''Assignment to option''))
                     else Inl (config_error (VStr name) (Some (Plain value_cfgfile)) None))
               else validate_loop rest defaults (setitem result name value_cfgfile)))"

definition validate :: "dict \<Rightarrow> dict \<Rightarrow> exn + dict" where
  "validate cfgfile defaults = validate_loop cfgfile defaults []"

section \<open>The combiner\<close>

text \<open>
  The first loop of \<^verbatim>\<open>combine\<close>, over the names of \<^verbatim>\<open>defaults\<close>. A subscript
  \<^verbatim>\<open>d[k]\<close> on a missing key raises \<^verbatim>\<open>KeyError\<close>.
\<close>

fun combine_base :: "string list \<Rightarrow> dict \<Rightarrow> dict \<Rightarrow> dict \<Rightarrow> dict \<Rightarrow> exn + dict" where
  "combine_base [] cli cfgfile defaults result = Inr result"
| "combine_base (name # names) cli cfgfile defaults result =
     (case getitem cli name of
        Some v \<Rightarrow> combine_base names cli cfgfile defaults (setitem result name v)
      | None \<Rightarrow>
          (case getitem cfgfile name of
             Some v \<Rightarrow> combine_base names cli cfgfile defaults (setitem result name v)
           | None \<Rightarrow>
               (case getitem defaults name of
                  Some v \<Rightarrow> combine_base names cli cfgfile defaults (setitem result name v)
                | None \<Rightarrow> Inl (KeyError (VStr name)))))"

text \<open>
  Iterating a value: a list gives its items, a string its characters, a dictionary
  its keys; a boolean is not iterable.
\<close>

fun py_iter :: "pyval \<Rightarrow> exn + pyval list" where
  "py_iter (VList xs) = Inr xs"
| "py_iter (VStr s) = Inr (map (\<lambda>c. VStr [c]) s)"
| "py_iter (VDict d) = Inr (map (\<lambda>kv. VStr (fst kv)) d)"
| "py_iter (VBool b) = Inl TypeError"

text \<open>
  \<^verbatim>\<open>cfgfile[profile_name]\<close> under \<^verbatim>\<open>except KeyError\<close>: the keys of \<^verbatim>\<open>cfgfile\<close>
  are strings, so a boolean is a missing key; a list or a dictionary is unhashable,
  which is a \<^verbatim>\<open>TypeError\<close> and is not caught.
\<close>

fun lookup_profile :: "dict \<Rightarrow> pyval \<Rightarrow> exn + pyval" where
  "lookup_profile cfgfile (VStr s) =
     (case getitem cfgfile s of
        None \<Rightarrow> Inl (config_error (VStr s) None (Some ''No such profile''))
      | Some p \<Rightarrow> Inr p)"
| "lookup_profile cfgfile (VBool b) =
     Inl (config_error (VBool b) None (Some ''No such profile''))"
| "lookup_profile cfgfile (VList xs) = Inl TypeError"
| "lookup_profile cfgfile (VDict d) = Inl TypeError"

fun py_items :: "pyval \<Rightarrow> exn + dict" where
  "py_items (VDict d) = Inr d"
| "py_items (VBool b) = Inl AttributeError"
| "py_items (VStr s) = Inl AttributeError"
| "py_items (VList xs) = Inl AttributeError"

fun apply_profile :: "dict \<Rightarrow> dict \<Rightarrow> dict \<Rightarrow> dict \<Rightarrow> exn + dict" where
  "apply_profile [] cli defaults result = Inr result"
| "apply_profile ((name, v) # items) cli defaults result =
     (case getitem cli name of
        None \<Rightarrow> apply_profile items cli defaults (setitem result name v)
      | Some c \<Rightarrow>
          (case getitem defaults name of
             None \<Rightarrow> Inl (KeyError (VStr name))
           | Some d \<Rightarrow>
               if c \<noteq> d then apply_profile items cli defaults result
               else apply_profile items cli defaults (setitem result name v)))"

fun combine_profiles :: "pyval list \<Rightarrow> dict \<Rightarrow> dict \<Rightarrow> dict \<Rightarrow> dict \<Rightarrow> exn + dict" where
  "combine_profiles [] cli cfgfile defaults result = Inr result"
| "combine_profiles (profile_name # rest) cli cfgfile defaults result =
     (case lookup_profile cfgfile profile_name of
        Inl e \<Rightarrow> Inl e
      | Inr profile \<Rightarrow>
          (case py_items profile of
             Inl e \<Rightarrow> Inl e
           | Inr items \<Rightarrow>
               (case apply_profile items cli defaults result of
                  Inl e \<Rightarrow> Inl e
                | Inr result' \<Rightarrow> combine_profiles rest cli cfgfile defaults result')))"

definition combine :: "dict \<Rightarrow> dict \<Rightarrow> dict \<Rightarrow> exn + dict" where
  "combine cli cfgfile defaults =
     (case combine_base (keys defaults) cli cfgfile defaults [] of
        Inl e \<Rightarrow> Inl e
      | Inr result \<Rightarrow>
          (case py_iter (case getitem cli ''profile'' of None \<Rightarrow> VList [] | Some v \<Rightarrow> v) of
             Inl e \<Rightarrow> Inl e
           | Inr profile_names \<Rightarrow> combine_profiles profile_names cli cfgfile defaults result))"

section \<open>Mappings\<close>

lemma getitem_setitem: "getitem (setitem d k v) k' = (if k' = k then Some v else getitem d k')"
  by (induction d) (auto simp: getitem_def)

lemma keys_setitem_list:
  "keys (setitem d k v) = (if k \<in> set (keys d) then keys d else keys d @ [k])"
  by (induction d) (force simp: keys_def)+

lemma keys_setitem: "set (keys (setitem d k v)) = insert k (set (keys d))"
  by (auto simp: keys_setitem_list)

lemma distinct_setitem: "distinct (keys d) \<Longrightarrow> distinct (keys (setitem d k v))"
  by (simp add: keys_setitem_list)

lemma getitem_keys: "(getitem d k \<noteq> None) = (k \<in> set (keys d))"
  by (simp add: getitem_def keys_def map_of_eq_None_iff)

lemma combine_base_cli:
  "combine_base names cli cfgfile defaults result = Inr res \<Longrightarrow> getitem cli name = Some c \<Longrightarrow>
   name \<in> set names \<or> getitem result name = Some c \<Longrightarrow> getitem res name = Some c"
proof (induction names arbitrary: result)
  case Nil
  then show ?case by simp
next
  case (Cons n names)
  show ?case
  proof (cases "n = name")
    case True
    with Cons.prems have "combine_base names cli cfgfile defaults (setitem result name c) = Inr res"
      by simp
    then show ?thesis
      using Cons.IH [of "setitem result name c"] Cons.prems(2) by (simp add: getitem_setitem)
  next
    case False
    with Cons.prems(3) have keep: "\<And>v. name \<in> set names \<or> getitem (setitem result n v) name = Some c"
      by (auto simp: getitem_setitem)
    from Cons.prems(1) obtain v where "combine_base names cli cfgfile defaults (setitem result n v) = Inr res"
      by (auto split: option.splits)
    then show ?thesis using Cons.IH keep Cons.prems(2) by blast
  qed
qed

lemma apply_profile_other:
  "apply_profile items cli defaults result = Inr res \<Longrightarrow> name \<notin> set (keys items) \<Longrightarrow>
   getitem res name = getitem result name"
proof (induction items arbitrary: result)
  case Nil
  then show ?case by simp
next
  case (Cons kv items)
  obtain n v where kv: "kv = (n, v)" by (cases kv)
  from Cons.prems(2) kv have ne: "n \<noteq> name" and notin: "name \<notin> set (keys items)"
    by (auto simp: keys_def)
  from Cons.prems(1) kv consider
      "apply_profile items cli defaults result = Inr res"
    | "apply_profile items cli defaults (setitem result n v) = Inr res"
    by (auto split: option.splits if_splits)
  then show ?case
  proof cases
    case 1
    then show ?thesis using Cons.IH notin by blast
  next
    case 2
    then have "getitem res name = getitem (setitem result n v) name" using Cons.IH notin by blast
    then show ?thesis using ne by (simp add: getitem_setitem)
  qed
qed

lemma apply_profile_guard:
  "apply_profile items cli defaults result = Inr res \<Longrightarrow> getitem cli name = Some c \<Longrightarrow>
   getitem defaults name = Some d \<Longrightarrow> c \<noteq> d \<Longrightarrow> getitem res name = getitem result name"
proof (induction items arbitrary: result)
  case Nil
  then show ?case by simp
next
  case (Cons kv items)
  obtain n v where kv: "kv = (n, v)" by (cases kv)
  show ?case
  proof (cases "n = name")
    case True
    with Cons.prems kv have "apply_profile items cli defaults result = Inr res" by simp
    then show ?thesis using Cons.IH Cons.prems by blast
  next
    case False
    from Cons.prems(1) kv consider
        "apply_profile items cli defaults result = Inr res"
      | "apply_profile items cli defaults (setitem result n v) = Inr res"
      by (auto split: option.splits if_splits)
    then show ?thesis
    proof cases
      case 1
      then show ?thesis using Cons.IH Cons.prems by blast
    next
      case 2
      then have "getitem res name = getitem (setitem result n v) name"
        using Cons.IH Cons.prems by blast
      then show ?thesis using False by (simp add: getitem_setitem)
    qed
  qed
qed

lemma apply_profile_override:
  "apply_profile items cli defaults result = Inr res \<Longrightarrow> getitem cli name = Some c \<Longrightarrow>
   getitem defaults name = Some c \<Longrightarrow> distinct (keys items) \<Longrightarrow> getitem items name = Some v \<Longrightarrow>
   getitem res name = Some v"
proof (induction items arbitrary: result)
  case Nil
  then show ?case by (simp add: getitem_def)
next
  case (Cons kv items)
  obtain n w where kv: "kv = (n, w)" by (cases kv)
  from Cons.prems(4) kv have notin: "n \<notin> set (keys items)" and dist: "distinct (keys items)"
    by (auto simp: keys_def)
  show ?case
  proof (cases "n = name")
    case True
    with Cons.prems(5) kv have w: "w = v" by (simp add: getitem_def)
    from Cons.prems kv True have "apply_profile items cli defaults (setitem result name w) = Inr res"
      by simp
    then have "getitem res name = getitem (setitem result name w) name"
      using apply_profile_other notin True by blast
    then show ?thesis using w by (simp add: getitem_setitem)
  next
    case False
    with Cons.prems(5) kv have later: "getitem items name = Some v" by (simp add: getitem_def)
    from Cons.prems(1) kv consider
        "apply_profile items cli defaults result = Inr res"
      | "apply_profile items cli defaults (setitem result n w) = Inr res"
      by (auto split: option.splits if_splits)
    then show ?thesis
      using Cons.IH Cons.prems(2,3) dist later by cases blast+
  qed
qed


section \<open>Precedence between the command line and a selected profile\<close>

text \<open>
  Claim C1 says that with the default \<^verbatim>\<open>verbose = False\<close>, a file whose profile
  \<^verbatim>\<open>P\<close> sets \<^verbatim>\<open>verbose\<close>, and a command line that gives \<^verbatim>\<open>verbose = False\<close> and
  selects \<^verbatim>\<open>P\<close>, the resolved \<^verbatim>\<open>verbose\<close> is \<^verbatim>\<open>False\<close>. The guard in
  \<^verbatim>\<open>combine\<close> is \<^verbatim>\<open>name in cli and cli[name] != defaults[name]\<close>: a command-line
  value equal to the default does not protect the entry, and the profile's value is
  stored. On that input the result is \<^verbatim>\<open>verbose = True\<close>.
\<close>

theorem combine_cli_default_counterexample:
  "read [''[P]'', ''verbose''] = Inr [(''P'', VDict [(''verbose'', VBool True)])]
   \<and> validate [(''P'', VDict [(''verbose'', VBool True)])] [(''verbose'', VBool False)]
       = Inr [(''P'', VDict [(''verbose'', VBool True)])]
   \<and> combine [(''verbose'', VBool False), (''profile'', VList [VStr ''P''])]
        [(''P'', VDict [(''verbose'', VBool True)])] [(''verbose'', VBool False)]
       = Inr [(''verbose'', VBool True)]"
  by code_simp


text \<open>
  Claim C1, amended: with one selected profile that holds a value for an option the
  command line also holds, \<^verbatim>\<open>combine\<close> resolves the option to the command-line value
  when that value differs from the schema default, and to the profile's value when it
  equals the default (so \<^verbatim>\<open>verbose\<close> above resolves to \<^verbatim>\<open>True\<close>).
\<close>

theorem combine_cli_against_profile:
  assumes "combine cli cfgfile defaults = Inr res"
      and "getitem defaults name = Some d"
      and "getitem cli name = Some c"
      and "getitem cli ''profile'' = Some (VList [VStr P])"
      and "getitem cfgfile P = Some (VDict prof)"
      and "distinct (keys prof)"
      and "getitem prof name = Some v"
    shows "getitem res name = Some (if c = d then v else c)"
proof -
  from assms(2) have inkeys: "name \<in> set (keys defaults)"
    using getitem_keys [of defaults name] by simp
  from assms(1,4,5) obtain r0 where
      base: "combine_base (keys defaults) cli cfgfile defaults [] = Inr r0"
    and prof: "apply_profile prof cli defaults r0 = Inr res"
    by (auto simp: combine_def split: sum.splits)
  from base assms(3) inkeys have r0: "getitem r0 name = Some c"
    using combine_base_cli by blast
  show ?thesis
  proof (cases "c = d")
    case True
    then show ?thesis using apply_profile_override [OF prof assms(3) _ assms(6,7)] assms(2) by simp
  next
    case False
    then show ?thesis using apply_profile_guard [OF prof assms(3,2)] r0 by simp
  qed
qed

theorem combine_cli_against_profile_witness:
  "combine [(''verbose'', VBool True), (''profile'', VList [VStr ''P''])]
        [(''P'', VDict [(''verbose'', VBool False)])] [(''verbose'', VBool False)]
       = Inr [(''verbose'', VBool True)]
   \<and> getitem [(''verbose'', VBool True)] ''verbose'' = Some (VBool True)"
  using combine_cli_against_profile [of "[(''verbose'', VBool True), (''profile'', VList [VStr ''P''])]"
     "[(''P'', VDict [(''verbose'', VBool False)])]" "[(''verbose'', VBool False)]" "[(''verbose'', VBool True)]"
     "''verbose''" "VBool False" "VBool True" "''P''" "[(''verbose'', VBool False)]" "VBool False"]
  by code_simp


section \<open>Shapes in the resolved configuration\<close>

text \<open>
  Claim C3 says that every value of the resolved configuration has the shape of the
  schema default of its key. A profile header whose name is an option name puts a
  dictionary under that name at the top level of the file mapping; \<^verbatim>\<open>validate\<close>
  passes every dictionary on as a profile, and the first loop of \<^verbatim>\<open>combine\<close> copies
  the entry. For the file \<^verbatim>\<open>[verbose]\<close>, the schema \<^verbatim>\<open>verbose = False\<close> and an empty
  command line the resolved \<^verbatim>\<open>verbose\<close> is a dictionary, not a boolean.
\<close>

theorem combine_profile_named_as_option:
  "read [''[verbose]''] = Inr [(''verbose'', VDict [])]
   \<and> validate [(''verbose'', VDict [])] [(''verbose'', VBool False)] = Inr [(''verbose'', VDict [])]
   \<and> combine [] [(''verbose'', VDict [])] [(''verbose'', VBool False)] = Inr [(''verbose'', VDict [])]
   \<and> type_of (VDict []) \<noteq> type_of (VBool False)"
  by code_simp

section \<open>Failures of the combiner\<close>

text \<open>
  Claim C5 says that \<^verbatim>\<open>combine\<close> either returns or raises the \<^verbatim>\<open>ConfigError\<close>
  for a profile name missing from the file mapping. When the selected name is present at
  the top level but bound to an option value, the lookup succeeds and
  \<^verbatim>\<open>profile.items()\<close> raises \<^verbatim>\<open>AttributeError\<close>: for the file \<^verbatim>\<open>verbose\<close>, the
  schema \<^verbatim>\<open>verbose = False, profile = []\<close> and the command line
  \<^verbatim>\<open>profile = ['verbose']\<close>.
\<close>

theorem combine_option_selected_as_profile:
  "read [''verbose''] = Inr [(''verbose'', VBool True)]
   \<and> validate [(''verbose'', VBool True)] [(''verbose'', VBool False), (''profile'', VList [])]
       = Inr [(''verbose'', VBool True)]
   \<and> combine [(''profile'', VList [VStr ''verbose''])] [(''verbose'', VBool True)]
        [(''verbose'', VBool False), (''profile'', VList [])]
       = Inl AttributeError"
  by code_simp

section \<open>Lines without whitespace around the equals sign\<close>

text \<open>
  Claim C4 says that \<^verbatim>\<open>key=value\<close>, with no whitespace around the equals sign, is an
  assignment of \<^verbatim>\<open>value\<close> to \<^verbatim>\<open>key\<close>. \<^verbatim>\<open>read\<close> tries \<^verbatim>\<open>_re_bool\<close> first, and
  a line without whitespace is one run of \<^verbatim>\<open>\S\<close> characters whether or not it holds an
  equals sign: the line is stored as the flag \<^verbatim>\<open>key=value\<close>. With whitespace on
  either side of the sign the line is an assignment.
\<close>

theorem read_assignment_without_whitespace:
  "read [''key=value''] = Inr [(''key=value'', VBool True)]
   \<and> read [''key= value''] = Inr [(''key'', VStr ''value'')]
   \<and> read [''key =value''] = Inr [(''key'', VStr ''value'')]
   \<and> read [''key = value''] = Inr [(''key'', VStr ''value'')]"
  by code_simp

section \<open>Scalar and list mismatches in the validator\<close>

lemma validate_loop_append:
  "validate_loop (a @ b) defaults result =
     (case validate_loop a defaults result of Inl e \<Rightarrow> Inl e | Inr r \<Rightarrow> validate_loop b defaults r)"
proof (induction a arbitrary: result)
  case Nil
  then show ?case by simp
next
  case (Cons kv a)
  obtain n v where kv: "kv = (n, v)" by (cases kv)
  show ?case
    using Cons.IH by (cases v) (simp_all add: kv split: sum.splits option.splits)
qed

lemma validate_loop_keeps:
  "validate_loop rest defaults result = Inr res \<Longrightarrow> name \<notin> set (keys rest) \<Longrightarrow>
   getitem res name = getitem result name"
proof (induction rest arbitrary: result)
  case Nil
  then show ?case by simp
next
  case (Cons kv rest)
  obtain n v where kv: "kv = (n, v)" by (cases kv)
  from Cons.prems(2) kv have ne: "n \<noteq> name" and notin: "name \<notin> set (keys rest)"
    by (auto simp: keys_def)
  from Cons.prems(1) kv obtain w where "validate_loop rest defaults (setitem result n w) = Inr res"
    by (cases v) (auto split: sum.splits option.splits if_splits)
  then have "getitem res name = getitem (setitem result n w) name"
    using Cons.IH notin by blast
  then show ?case using ne by (simp add: getitem_setitem)
qed

lemma validate_loop_accepts:
  "validate_loop rest defaults r1 = Inr res1 \<Longrightarrow> \<exists>res2. validate_loop rest defaults r2 = Inr res2"
proof (induction rest arbitrary: r1 r2 res1)
  case Nil
  then show ?case by simp
next
  case (Cons kv rest)
  obtain n v where kv: "kv = (n, v)" by (cases kv)
  show ?case
  proof (cases v)
    case (VDict d)
    with Cons.prems kv obtain r where inner: "validate_loop d defaults [] = Inr r"
      and "validate_loop rest defaults (setitem r1 n (VDict r)) = Inr res1"
      by (auto split: sum.splits)
    then obtain res2 where "validate_loop rest defaults (setitem r2 n (VDict r)) = Inr res2"
      using Cons.IH by blast
    then show ?thesis using kv VDict inner by simp
  next
    case (VBool b)
    with Cons.prems kv obtain w where
      step: "\<And>r. validate_loop ((n, v) # rest) defaults r = validate_loop rest defaults (setitem r n w)"
      by (auto split: option.splits if_splits)
    with Cons.prems kv have "validate_loop rest defaults (setitem r1 n w) = Inr res1" by simp
    then obtain res2 where "validate_loop rest defaults (setitem r2 n w) = Inr res2"
      using Cons.IH by blast
    then show ?thesis using kv step by simp
  next
    case (VStr s)
    with Cons.prems kv obtain w where
      step: "\<And>r. validate_loop ((n, v) # rest) defaults r = validate_loop rest defaults (setitem r n w)"
      by (auto split: option.splits if_splits)
    with Cons.prems kv have "validate_loop rest defaults (setitem r1 n w) = Inr res1" by simp
    then obtain res2 where "validate_loop rest defaults (setitem r2 n w) = Inr res2"
      using Cons.IH by blast
    then show ?thesis using kv step by simp
  next
    case (VList xs)
    with Cons.prems kv obtain w where
      step: "\<And>r. validate_loop ((n, v) # rest) defaults r = validate_loop rest defaults (setitem r n w)"
      by (auto split: option.splits if_splits)
    with Cons.prems kv have "validate_loop rest defaults (setitem r1 n w) = Inr res1" by simp
    then obtain res2 where "validate_loop rest defaults (setitem r2 n w) = Inr res2"
      using Cons.IH by blast
    then show ?thesis using kv step by simp
  qed
qed

text \<open>
  Claim C6, for a raw mapping that binds \<open>name\<close> to \<open>v\<close> (the entries \<open>pre\<close> come
  before it and \<open>post\<close> after it). When the schema default of \<open>name\<close> is a string and
  \<open>v\<close> is a list, \<^verbatim>\<open>validate\<close> fails, and once the entries before it are accepted
  the failure is the \<^verbatim>\<open>ConfigError\<close> for \<open>name\<close> with the reason
  \<^verbatim>\<open>Multiple values not allowed\<close> (an entry rejected earlier raises first; an empty
  list gives an empty joined value, which the exception drops). When the schema
  default is a list and \<open>v\<close> is a boolean or a string, the entry is accepted
  (\<^verbatim>\<open>validate\<close> returns whenever the other entries are accepted), and every mapping
  \<^verbatim>\<open>validate\<close> returns binds \<open>name\<close> to the one-element list of \<open>v\<close>.
\<close>

theorem validate_scalar_list_mismatch:
  assumes "raw = pre @ (name, v) # post" and "name \<notin> set (keys post)"
  shows "(getitem defaults name = Some (VStr s) \<and> v = VList xs \<longrightarrow>
            (\<exists>e. validate raw defaults = Inl e) \<and>
            (\<forall>r. validate pre defaults = Inr r \<longrightarrow>
                 validate raw defaults =
                   Inl (ConfigError (VStr name) (if xs = [] then None else Some (Joined xs))
                          ''Multiple values not allowed'')))
       \<and> (getitem defaults name = Some (VList ds) \<and> (v = VBool b \<or> v = VStr t) \<longrightarrow>
            (\<forall>r r'. validate pre defaults = Inr r \<and> validate post defaults = Inr r' \<longrightarrow>
                 (\<exists>res. validate raw defaults = Inr res)) \<and>
            (\<forall>res. validate raw defaults = Inr res \<longrightarrow> getitem res name = Some (VList [v])))"
proof (intro conjI impI)
  assume h: "getitem defaults name = Some (VStr s) \<and> v = VList xs"
  then have step: "\<And>r. validate_loop ((name, v) # post) defaults r =
      Inl (ConfigError (VStr name) (if xs = [] then None else Some (Joined xs)) ''Multiple values not allowed'')"
    by (simp add: config_error_def)
  show "\<exists>e. validate raw defaults = Inl e"
    using step assms(1) by (cases "validate_loop pre defaults []") (simp_all add: validate_def validate_loop_append)
  show "\<forall>r. validate pre defaults = Inr r \<longrightarrow>
           validate raw defaults = Inl (ConfigError (VStr name) (if xs = [] then None else Some (Joined xs)) ''Multiple values not allowed'')"
    using step assms(1) by (simp add: validate_def validate_loop_append)
next
  assume h: "getitem defaults name = Some (VList ds) \<and> (v = VBool b \<or> v = VStr t)"
  then have step: "\<And>r. validate_loop ((name, v) # post) defaults r =
      validate_loop post defaults (setitem r name (VList [v]))"
    by auto
  show "\<forall>r r'. validate pre defaults = Inr r \<and> validate post defaults = Inr r' \<longrightarrow>
          (\<exists>res. validate raw defaults = Inr res)"
  proof (intro allI impI)
    fix r r'
    assume ok: "validate pre defaults = Inr r \<and> validate post defaults = Inr r'"
    then obtain res where "validate_loop post defaults (setitem r name (VList [v])) = Inr res"
      using validate_loop_accepts [of post defaults "[]" r'] by (auto simp: validate_def)
    then show "\<exists>res. validate raw defaults = Inr res"
      using ok step assms(1) by (simp add: validate_def validate_loop_append)
  qed
  show "\<forall>res. validate raw defaults = Inr res \<longrightarrow> getitem res name = Some (VList [v])"
  proof (intro allI impI)
    fix res
    assume "validate raw defaults = Inr res"
    then obtain r where "validate_loop post defaults (setitem r name (VList [v])) = Inr res"
      using step assms(1) by (auto simp: validate_def validate_loop_append split: sum.splits)
    then have "getitem res name = getitem (setitem r name (VList [v])) name"
      using validate_loop_keeps assms(2) by blast
    then show "getitem res name = Some (VList [v])" by (simp add: getitem_setitem)
  qed
qed


theorem validate_scalar_list_mismatch_witness:
  "getitem [(''name'', VStr []), (''comment'', VStr []), (''tracker'', VList [])] ''name'' = Some (VStr [])
   \<and> validate [(''comment'', VStr ''c''), (''name'', VList [VStr ''a'', VStr ''b'']), (''tracker'', VStr ''t'')]
         [(''name'', VStr []), (''comment'', VStr []), (''tracker'', VList [])]
       = Inl (ConfigError (VStr ''name'') (Some (Joined [VStr ''a'', VStr ''b'']))
                ''Multiple values not allowed'')
   \<and> getitem [(''name'', VStr []), (''comment'', VStr []), (''tracker'', VList [])] ''tracker'' = Some (VList [])
   \<and> (\<exists>res. validate [(''comment'', VStr ''c''), (''tracker'', VStr ''t''), (''name'', VStr ''n'')]
               [(''name'', VStr []), (''comment'', VStr []), (''tracker'', VList [])] = Inr res
            \<and> getitem res ''tracker'' = Some (VList [VStr ''t'']))"
proof -
  let ?D = "[(''name'', VStr []), (''comment'', VStr []), (''tracker'', VList [])]"
  let ?pre = "[(''comment'', VStr ''c'')]"
  have hyp1: "getitem ?D ''name'' = Some (VStr [])"
    by (simp add: getitem_def)
  have hyp2: "getitem ?D ''tracker'' = Some (VList [])"
    by (simp add: getitem_def)
  have pre: "validate ?pre ?D = Inr [(''comment'', VStr ''c'')]"
    by (simp add: validate_def getitem_def)
  have post: "validate [(''name'', VStr ''n'')] ?D = Inr [(''name'', VStr ''n'')]"
    by (simp add: validate_def getitem_def)
  have shape1: "[(''comment'', VStr ''c''), (''name'', VList [VStr ''a'', VStr ''b'']), (''tracker'', VStr ''t'')]
      = ?pre @ (''name'', VList [VStr ''a'', VStr ''b'']) # [(''tracker'', VStr ''t'')]"
    by simp
  have uniq1: "''name'' \<notin> set (keys [(''tracker'', VStr ''t'')])"
    by (simp add: keys_def)
  have shape2: "[(''comment'', VStr ''c''), (''tracker'', VStr ''t''), (''name'', VStr ''n'')]
      = ?pre @ (''tracker'', VStr ''t'') # [(''name'', VStr ''n'')]"
    by simp
  have uniq2: "''tracker'' \<notin> set (keys [(''name'', VStr ''n'')])"
    by (simp add: keys_def)
  have r1: "validate [(''comment'', VStr ''c''), (''name'', VList [VStr ''a'', VStr ''b'']), (''tracker'', VStr ''t'')] ?D
       = Inl (ConfigError (VStr ''name'') (Some (Joined [VStr ''a'', VStr ''b'']))
                ''Multiple values not allowed'')"
    using validate_scalar_list_mismatch [OF shape1 uniq1, of ?D "[]" "[VStr ''a'', VStr ''b'']"] hyp1 pre
    by simp
  have r2: "\<exists>res. validate [(''comment'', VStr ''c''), (''tracker'', VStr ''t''), (''name'', VStr ''n'')] ?D = Inr res
            \<and> getitem res ''tracker'' = Some (VList [VStr ''t''])"
    using validate_scalar_list_mismatch [OF shape2 uniq2, of ?D _ _ "[]" _ "''t''"] hyp2 pre post
    by blast
  show ?thesis using hyp1 hyp2 r1 r2 by blast
qed

section \<open>The loop of the parser\<close>

lemma read_line_classify:
  "read_line st line =
     (case classify line of
        Skipped \<Rightarrow> Inr st
      | Header n \<Rightarrow> Inr (setitem (fst st) n (VDict []), Some n)
      | Flag n \<Rightarrow> Inr (sub_setitem st n (VBool True))
      | Assignment n g \<Rightarrow>
          (case unquote (strip g) of Inl e \<Rightarrow> Inl e | Inr v \<Rightarrow> Inr (assign st n v))
      | Ignored \<Rightarrow> Inr st)"
  by (simp add: read_line_def classify_def Let_def split: option.splits prod.splits)

lemma read_loop_append:
  "read_loop (a @ b) st =
     (case read_loop a st of Inl e \<Rightarrow> Inl e | Inr st' \<Rightarrow> read_loop b st')"
  by (induction a arbitrary: st) (simp_all split: sum.splits)

lemma unquote_error: "unquote v = Inl e \<Longrightarrow> e = IndexError"
  by (auto simp: unquote_def split: if_splits)

lemma read_line_error: "read_line st line = Inl e \<Longrightarrow> e = IndexError"
  by (auto simp: read_line_classify dest: unquote_error split: line_kind.splits sum.splits)

lemma read_loop_error: "read_loop ls st = Inl e \<Longrightarrow> e = IndexError"
  by (induction ls arbitrary: st) (auto dest: read_line_error split: sum.splits)

lemma read_loop_raises:
  "l \<in> set ls \<Longrightarrow> (\<And>st'. read_line st' (strip l) = Inl IndexError) \<Longrightarrow>
   read_loop ls st = Inl IndexError"
proof (induction ls arbitrary: st)
  case Nil
  then show ?case by simp
next
  case (Cons x ls)
  show ?case
  proof (cases "read_line st (strip x)")
    case (Inl e)
    then show ?thesis using read_line_error by auto
  next
    case (Inr st1)
    show ?thesis
    proof (cases "x = l")
      case True
      then show ?thesis using Cons.prems(2) [of st] Inr by simp
    next
      case False
      then have "l \<in> set ls" using Cons.prems(1) by simp
      then show ?thesis using Cons.IH Cons.prems(2) Inr by simp
    qed
  qed
qed

lemma subcfg_sub_setitem: "subcfg (sub_setitem st n v) = setitem (subcfg st) n v"
  by (cases "snd st") (simp_all add: subcfg_def sub_setitem_def getitem_setitem)

lemma snd_sub_setitem: "snd (sub_setitem st n v) = snd st"
  by (cases "snd st") (simp_all add: sub_setitem_def)

lemma assign_sub_setitem:
  "assign st n v =
     sub_setitem st n
       (case getitem (subcfg st) n of
          None \<Rightarrow> VStr v
        | Some (VList xs) \<Rightarrow> VList (xs @ [VStr v])
        | Some old \<Rightarrow> VList [old, VStr v])"
  by (simp add: assign_def split: option.splits pyval.splits)

section \<open>Quoted values\<close>

lemma unquote_wrapped:
  "q = CHR 0x22 \<or> q = CHR 0x27 \<Longrightarrow> unquote (q # body @ [q]) = Inr body"
  by (auto simp: unquote_def)

lemma unquote_unmatched:
  "rest \<noteq> [] \<Longrightarrow> last rest \<noteq> q \<Longrightarrow> unquote (q # rest) = Inr (q # rest)"
  by (auto simp: unquote_def)

text \<open>
  Claim C7, for a line \<open>l\<close> that \<^verbatim>\<open>read\<close> takes as an assignment (after trimming it
  is no comment, header or bare token, and \<^verbatim>\<open>_re_assign\<close> matches it with the groups
  \<open>name\<close> and \<open>g2\<close>). When the trimmed value is \<open>body\<close> between two double quotes or
  between two single quotes, the line assigns \<open>body\<close>: one pair of quotes is dropped
  and nothing inside is touched. When the trimmed value begins with a quote and ends
  with another character, the line assigns the value as it stands, quote included.
  In a file of that one line the mapping read binds \<open>name\<close> to that string.
  (A value that is one lone quote character has equal ends and is stored as the empty
  string; neither case of the claim covers it.)
\<close>

theorem read_quoted_value:
  assumes "classify (strip l) = Assignment name g2"
  shows "(strip g2 = q # body @ [q] \<and> (q = CHR 0x22 \<or> q = CHR 0x27) \<longrightarrow>
            read_loop (l # ls) st = read_loop ls (assign st name body)
            \<and> read [l] = Inr [(name, VStr body)])
       \<and> (strip g2 = q # rest \<and> (q = CHR 0x22 \<or> q = CHR 0x27) \<and> rest \<noteq> [] \<and> last rest \<noteq> q \<longrightarrow>
            read_loop (l # ls) st = read_loop ls (assign st name (q # rest))
            \<and> read [l] = Inr [(name, VStr (q # rest))])"
proof -
  have first: "fst (assign ([], None) name v) = [(name, VStr v)]" for v
    by (simp add: assign_def subcfg_def sub_setitem_def getitem_def)
  have step: "unquote (strip g2) = Inr v \<Longrightarrow>
      read_loop (l # ls) st = read_loop ls (assign st name v) \<and> read [l] = Inr [(name, VStr v)]" for v
    using assms first by (simp add: read_def read_line_classify)
  show ?thesis
    using step unquote_wrapped [of q body] unquote_unmatched [of rest q] by auto
qed

theorem read_quoted_value_witness:
  "classify (strip (''name = '' @ [CHR 0x22] @ ''hello world'' @ [CHR 0x22]))
     = Assignment ''name'' ([CHR 0x22] @ ''hello world'' @ [CHR 0x22])
   \<and> read [''name = '' @ [CHR 0x22] @ ''hello world'' @ [CHR 0x22]] = Inr [(''name'', VStr ''hello world'')]
   \<and> read [''name = '' @ [CHR 0x27] @ ''hello world'' @ [CHR 0x27]] = Inr [(''name'', VStr ''hello world'')]
   \<and> read [''name = '' @ [CHR 0x22] @ ''unterminated''] = Inr [(''name'', VStr ([CHR 0x22] @ ''unterminated''))]"
proof -
  have c1: "classify (strip (''name = '' @ [CHR 0x22] @ ''hello world'' @ [CHR 0x22]))
     = Assignment ''name'' ([CHR 0x22] @ ''hello world'' @ [CHR 0x22])"
    by code_simp
  have s1: "strip ([CHR 0x22] @ ''hello world'' @ [CHR 0x22]) = CHR 0x22 # ''hello world'' @ [CHR 0x22]"
    by code_simp
  have c2: "classify (strip (''name = '' @ [CHR 0x27] @ ''hello world'' @ [CHR 0x27]))
     = Assignment ''name'' ([CHR 0x27] @ ''hello world'' @ [CHR 0x27])"
    by code_simp
  have s2: "strip ([CHR 0x27] @ ''hello world'' @ [CHR 0x27]) = CHR 0x27 # ''hello world'' @ [CHR 0x27]"
    by code_simp
  have c3: "classify (strip (''name = '' @ [CHR 0x22] @ ''unterminated''))
     = Assignment ''name'' ([CHR 0x22] @ ''unterminated'')"
    by code_simp
  have s3: "strip ([CHR 0x22] @ ''unterminated'') = CHR 0x22 # ''unterminated''"
    by code_simp
  have r1: "read [''name = '' @ [CHR 0x22] @ ''hello world'' @ [CHR 0x22]] = Inr [(''name'', VStr ''hello world'')]"
    using read_quoted_value [OF c1, where q = "CHR 0x22" and body = "''hello world''"] s1 by simp
  have r2: "read [''name = '' @ [CHR 0x27] @ ''hello world'' @ [CHR 0x27]] = Inr [(''name'', VStr ''hello world'')]"
    using read_quoted_value [OF c2, where q = "CHR 0x27" and body = "''hello world''"] s2 by simp
  have r3: "read [''name = '' @ [CHR 0x22] @ ''unterminated''] = Inr [(''name'', VStr ([CHR 0x22] @ ''unterminated''))]"
    using read_quoted_value [OF c3, where q = "CHR 0x22" and rest = "''unterminated''"] s3 by simp
  show ?thesis using c1 r1 r2 r3 by blast
qed

section \<open>Assignments of nothing\<close>

lemma isspace_equals: "\<not> isspace (CHR ''='')"
  by (simp add: isspace_def)

lemma classify_empty_assignment:
  assumes "key \<noteq> []" and "\<forall>c\<in>set key. \<not> isspace c" and "hd key \<noteq> CHR ''#''"
      and "sp \<noteq> []" and "\<forall>c\<in>set sp. isspace c"
  shows "classify (key @ sp @ ''='') = Assignment key []"
proof -
  let ?s = "key @ sp @ ''=''"
  obtain c sp' where sp: "sp = c # sp'" and c: "isspace c"
    using assms(4,5) by (cases sp) auto
  have tw: "takeWhile (\<lambda>c. \<not> isspace c) ?s = key"
    using assms(2) c by (simp add: sp)
  have dw: "dropWhile (\<lambda>c. \<not> isspace c) ?s = sp @ ''=''"
    using assms(2) c by (simp add: sp)
  have nobool: "re_bool ?s = None"
    using tw dw by (simp add: re_bool_def Let_def sp)
  obtain j where j: "length key = Suc j"
    using assms(1) by (cases key) auto
  have after: "dropWhile isspace (drop (Suc j) ?s) = ''=''"
    using assms(5) j [symmetric] isspace_equals by simp
  have tk: "take (Suc j) ?s = key"
    using j [symmetric] by simp
  have rest: "re_rest [] = Some []"
    by (simp add: re_rest_def)
  have "re_assign_from ?s (Suc j) = Some (key, [])"
    using after tk rest by simp
  then have asg: "re_assign ?s = Some (key, [])"
    using tw j by (simp add: re_assign_def)
  have hd: "hd ?s = hd key" using assms(1) by simp
  show ?thesis
    using nobool asg hd assms(1,3) by (simp add: classify_def)
qed

text \<open>
  Claim C8: a line that, once trimmed, is a key, at least one whitespace character and
  an equals sign (the key is a run of non-whitespace characters that does not begin a
  comment) is an assignment of the empty string, and the quote test on it reads
  \<^verbatim>\<open>value[0]\<close>. \<^verbatim>\<open>read\<close> raises \<^verbatim>\<open>IndexError\<close> on every file that holds such a
  line: nothing is returned, and no other exception can come first, since
  \<^verbatim>\<open>IndexError\<close> is the only one the loop raises. (Without whitespace before the
  sign the trimmed line \<^verbatim>\<open>key=\<close> is a bare token, see C4.)
\<close>

theorem read_empty_value:
  assumes "strip l = key @ sp @ ''=''"
      and "key \<noteq> []" and "\<forall>c\<in>set key. \<not> isspace c" and "hd key \<noteq> CHR ''#''"
      and "sp \<noteq> []" and "\<forall>c\<in>set sp. isspace c"
      and "l \<in> set lines"
  shows "read lines = Inl IndexError"
proof -
  have "classify (strip l) = Assignment key []"
    using classify_empty_assignment [OF assms(2-6)] assms(1) by simp
  then have "read_line st' (strip l) = Inl IndexError" for st'
    by (simp add: read_line_classify strip_def unquote_def)
  then have "read_loop lines ([], None) = Inl IndexError"
    using read_loop_raises [OF assms(7)] by blast
  then show ?thesis by (simp add: read_def)
qed

theorem read_empty_value_witness:
  "strip ''key =  '' = ''key'' @ '' '' @ ''=''
   \<and> read [''name = a'', ''key =  '', ''other''] = Inl IndexError"
proof -
  have s: "strip ''key =  '' = ''key'' @ '' '' @ ''=''"
    by code_simp
  have k: "\<forall>c\<in>set ''key''. \<not> isspace c"
    by (simp add: isspace_def)
  have sp: "\<forall>c\<in>set '' ''. isspace c"
    by (simp add: isspace_def)
  have "read [''name = a'', ''key =  '', ''other''] = Inl IndexError"
    using read_empty_value [OF s _ k _ _ sp, of "[''name = a'', ''key =  '', ''other'']"] by simp
  then show ?thesis using s by blast
qed

section \<open>Scopes\<close>

lemma sub_setitem_elsewhere:
  "snd st = Some q \<Longrightarrow> q \<noteq> x \<Longrightarrow> getitem (fst (sub_setitem st n v)) x = getitem (fst st) x"
  by (simp add: sub_setitem_def getitem_setitem)

lemma read_line_elsewhere:
  assumes "read_line st line = Inr st'" and "snd st = Some q" and "q \<noteq> x"
      and "classify line \<noteq> Header x"
  shows "getitem (fst st') x = getitem (fst st) x \<and> (\<exists>q'. snd st' = Some q' \<and> q' \<noteq> x)"
proof (cases "classify line")
  case Skipped
  then show ?thesis using assms by (simp add: read_line_classify)
next
  case (Header n)
  then show ?thesis using assms by (auto simp: read_line_classify getitem_setitem)
next
  case (Flag n)
  then show ?thesis
    using assms by (auto simp: read_line_classify sub_setitem_elsewhere snd_sub_setitem)
next
  case (Assignment n g)
  then show ?thesis
    using assms
    by (auto simp: read_line_classify assign_sub_setitem sub_setitem_elsewhere snd_sub_setitem
             split: sum.splits)
next
  case Ignored
  then show ?thesis using assms by (simp add: read_line_classify)
qed

lemma read_loop_elsewhere:
  "read_loop ls st = Inr st' \<Longrightarrow> snd st = Some q \<Longrightarrow> q \<noteq> x \<Longrightarrow>
   list_all (\<lambda>l. classify (strip l) \<noteq> Header x) ls \<Longrightarrow>
   getitem (fst st') x = getitem (fst st) x"
proof (induction ls arbitrary: st q)
  case Nil
  then show ?case by simp
next
  case (Cons l ls)
  from Cons.prems(1) obtain st1 where
      step: "read_line st (strip l) = Inr st1" and rest: "read_loop ls st1 = Inr st'"
    by (auto split: sum.splits)
  from Cons.prems(4) have notx: "classify (strip l) \<noteq> Header x"
    and later: "list_all (\<lambda>l. classify (strip l) \<noteq> Header x) ls"
    by simp_all
  from read_line_elsewhere [OF step Cons.prems(2,3) notx] obtain q' where
      same: "getitem (fst st1) x = getitem (fst st) x" and q': "snd st1 = Some q'" "q' \<noteq> x"
    by blast
  from Cons.IH [OF rest q' later] same show ?case by simp
qed

lemma closes_keeps:
  assumes "closes x ls" and "read_loop ls st = Inr st'"
  shows "getitem (fst st') x = getitem (fst st) x"
proof (cases ls)
  case Nil
  then show ?thesis using assms by simp
next
  case (Cons h t)
  from assms(1) Cons obtain n where h: "classify (strip h) = Header n" and n: "n \<noteq> x"
    and later: "list_all (\<lambda>l. classify (strip l) \<noteq> Header x) t"
    by (auto simp: closes_def is_header_def split: line_kind.splits)
  from assms(2) Cons h have rest: "read_loop t (setitem (fst st) n (VDict []), Some n) = Inr st'"
    by (simp add: read_line_classify)
  have "getitem (fst st') x = getitem (fst (setitem (fst st) n (VDict []), Some n)) x"
    using read_loop_elsewhere [OF rest _ n later] by simp
  then show ?thesis using n by (simp add: getitem_setitem)
qed

lemma other_line_keeps:
  assumes "other_line key l" and "read_line st (strip l) = Inr st'"
  shows "snd st' = snd st \<and> getitem (subcfg st') key = getitem (subcfg st) key"
proof (cases "classify (strip l)")
  case Skipped
  then show ?thesis using assms by (simp add: read_line_classify)
next
  case (Header n)
  then show ?thesis using assms by (simp add: other_line_def)
next
  case (Flag n)
  then show ?thesis
    using assms
    by (auto simp: other_line_def read_line_classify snd_sub_setitem subcfg_sub_setitem getitem_setitem)
next
  case (Assignment n g)
  then show ?thesis
    using assms
    by (auto simp: other_line_def read_line_classify assign_sub_setitem snd_sub_setitem
                   subcfg_sub_setitem getitem_setitem split: sum.splits)
next
  case Ignored
  then show ?thesis using assms by (simp add: read_line_classify)
qed

lemma other_lines_keep:
  "list_all (other_line key) ls \<Longrightarrow> read_loop ls st = Inr st' \<Longrightarrow>
   snd st' = snd st \<and> getitem (subcfg st') key = getitem (subcfg st) key"
proof (induction ls arbitrary: st)
  case Nil
  then show ?case by simp
next
  case (Cons l ls)
  from Cons.prems(2) obtain st1 where
      step: "read_line st (strip l) = Inr st1" and rest: "read_loop ls st1 = Inr st'"
    by (auto split: sum.splits)
  from Cons.prems(1) have l: "other_line key l" and ls: "list_all (other_line key) ls"
    by simp_all
  from other_line_keeps [OF l step] Cons.IH [OF ls rest] show ?case by simp
qed

section \<open>A flag that is assigned later\<close>

text \<open>
  Claim C10. The file is \<open>A\<close>, a bare flag line for \<open>key\<close>, \<open>B\<close>, an assignment line
  that gives \<open>key\<close> the value \<open>v\<close>, \<open>C\<close> and \<open>R\<close>. The lines of \<open>B\<close> and \<open>C\<close> open no
  profile and do not name \<open>key\<close>, so both lines fall in the scope that is current after
  \<open>A\<close> and are the only ones for \<open>key\<close> there; \<open>R\<close> is empty or begins with the header
  that ends the scope, and does not open it again. When \<^verbatim>\<open>read\<close> returns a mapping,
  that scope of it binds \<open>key\<close> to the list of \<^verbatim>\<open>True\<close> and the string \<open>v\<close>.
\<close>

theorem read_flag_then_assignment:
  assumes "classify (strip fl) = Flag key"
      and "classify (strip al) = Assignment key g2"
      and "unquote (strip g2) = Inr v"
      and "list_all (other_line key) (B @ C)"
      and "read_loop A ([], None) = Inr stA"
      and "closes (case snd stA of None \<Rightarrow> key | Some p \<Rightarrow> p) R"
      and "read (A @ [fl] @ B @ [al] @ C @ R) = Inr cfg"
  shows "getitem (subcfg (cfg, snd stA)) key = Some (VList [VBool True, VStr v])"
proof -
  let ?x = "case snd stA of None \<Rightarrow> key | Some p \<Rightarrow> p"
  from assms(4) have B: "list_all (other_line key) B" and C: "list_all (other_line key) C"
    by simp_all
  from assms(7) obtain stF where
      all: "read_loop (A @ [fl] @ B @ [al] @ C @ R) ([], None) = Inr stF" and cfg: "cfg = fst stF"
    by (auto simp: read_def split: sum.splits)
  define st1 where "st1 = sub_setitem stA key (VBool True)"
  from all assms(5,1) have "read_loop (B @ [al] @ C @ R) st1 = Inr stF"
    by (simp add: read_loop_append read_line_classify st1_def)
  then obtain st2 where b: "read_loop B st1 = Inr st2"
    and after_b: "read_loop ([al] @ C @ R) st2 = Inr stF"
    by (auto simp: read_loop_append split: sum.splits)
  from other_lines_keep [OF B b]
  have st2: "snd st2 = snd stA" "getitem (subcfg st2) key = Some (VBool True)"
    by (simp_all add: st1_def snd_sub_setitem subcfg_sub_setitem getitem_setitem)
  define st3 where "st3 = assign st2 key v"
  have st3: "snd st3 = snd stA" "getitem (subcfg st3) key = Some (VList [VBool True, VStr v])"
    using st2 by (simp_all add: st3_def assign_sub_setitem snd_sub_setitem subcfg_sub_setitem
                                getitem_setitem)
  from after_b assms(2,3) have "read_loop (C @ R) st3 = Inr stF"
    by (simp add: read_line_classify st3_def)
  then obtain st4 where c: "read_loop C st3 = Inr st4" and r: "read_loop R st4 = Inr stF"
    by (auto simp: read_loop_append split: sum.splits)
  from other_lines_keep [OF C c] st3
  have st4: "snd st4 = snd stA" "getitem (subcfg st4) key = Some (VList [VBool True, VStr v])"
    by simp_all
  have kept: "getitem (fst stF) ?x = getitem (fst st4) ?x"
    using closes_keeps [OF assms(6) r] .
  have "getitem (subcfg (fst stF, snd stA)) key = getitem (subcfg (fst st4, snd stA)) key"
    using kept by (cases "snd stA") (simp_all add: subcfg_def)
  moreover have "(fst st4, snd stA) = st4"
    using st4(1) by (cases st4) simp
  ultimately show ?thesis using st4(2) cfg by simp
qed

theorem read_flag_then_assignment_witness:
  "read ([''[P]''] @ [''flag''] @ [''other = 1''] @ [''flag = v''] @ [''x''] @ [''[Q]'', ''flag''])
     = Inr [(''P'', VDict [(''flag'', VList [VBool True, VStr ''v'']), (''other'', VStr ''1''),
                          (''x'', VBool True)]),
            (''Q'', VDict [(''flag'', VBool True)])]
   \<and> getitem (subcfg ([(''P'', VDict [(''flag'', VList [VBool True, VStr ''v'']), (''other'', VStr ''1''),
                                      (''x'', VBool True)]),
                        (''Q'', VDict [(''flag'', VBool True)])], Some ''P'')) ''flag''
     = Some (VList [VBool True, VStr ''v''])"
proof -
  let ?cfg = "[(''P'', VDict [(''flag'', VList [VBool True, VStr ''v'']), (''other'', VStr ''1''),
                             (''x'', VBool True)]),
               (''Q'', VDict [(''flag'', VBool True)])]"
  have fl: "classify (strip ''flag'') = Flag ''flag''"
    by code_simp
  have al: "classify (strip ''flag = v'') = Assignment ''flag'' ''v''"
    by code_simp
  have v: "unquote (strip ''v'') = Inr ''v''"
    by code_simp
  have others: "list_all (other_line ''flag'') ([''other = 1''] @ [''x''])"
    by code_simp
  have a: "read_loop [''[P]''] ([], None) = Inr ([(''P'', VDict [])], Some ''P'')"
    by code_simp
  have r: "closes (case snd ([(''P'', VDict [])], Some ''P'') of None \<Rightarrow> ''flag'' | Some p \<Rightarrow> p)
             [''[Q]'', ''flag'']"
    by code_simp
  have rd: "read ([''[P]''] @ [''flag''] @ [''other = 1''] @ [''flag = v''] @ [''x''] @ [''[Q]'', ''flag''])
      = Inr ?cfg"
    by code_simp
  from read_flag_then_assignment [OF fl al v others a r rd] rd show ?thesis by simp
qed

section \<open>A profile declared twice\<close>

lemma block_step:
  assumes "\<not> is_header l" and "read_line st (strip l) = Inr st1"
      and "snd st = Some p" and "getitem (fst st) p = Some (VDict d)"
  shows "\<exists>d1. read_line (d, None) (strip l) = Inr (d1, None)
            \<and> getitem (fst st1) p = Some (VDict d1) \<and> snd st1 = Some p"
proof -
  have sub: "subcfg st = d" "subcfg (d, None) = d"
    using assms(3,4) by (simp_all add: subcfg_def)
  have set_in: "sub_setitem st n w = (setitem (fst st) p (VDict (setitem d n w)), Some p)" for n w
    using assms(3) sub by (simp add: sub_setitem_def)
  have set_top: "sub_setitem (d, None) n w = (setitem d n w, None)" for n w
    by (simp add: sub_setitem_def)
  show ?thesis
  proof (cases "classify (strip l)")
    case Skipped
    then show ?thesis using assms by (simp add: read_line_classify)
  next
    case (Header n)
    then show ?thesis using assms(1) by (simp add: is_header_def)
  next
    case (Flag n)
    then show ?thesis
      using assms(2) by (auto simp: read_line_classify set_in set_top getitem_setitem)
  next
    case (Assignment n g)
    then show ?thesis
      using assms(2)
      by (auto simp: read_line_classify assign_sub_setitem sub set_in set_top getitem_setitem
               split: sum.splits)
  next
    case Ignored
    then show ?thesis using assms by (simp add: read_line_classify)
  qed
qed

lemma block_alone:
  "list_all (\<lambda>l. \<not> is_header l) ls \<Longrightarrow> read_loop ls st = Inr st' \<Longrightarrow> snd st = Some p \<Longrightarrow>
   getitem (fst st) p = Some (VDict d) \<Longrightarrow>
   \<exists>d'. read_loop ls (d, None) = Inr (d', None) \<and> getitem (fst st') p = Some (VDict d')"
proof (induction ls arbitrary: st d)
  case Nil
  then show ?case by simp
next
  case (Cons l ls)
  from Cons.prems(2) obtain st1 where
      step: "read_line st (strip l) = Inr st1" and rest: "read_loop ls st1 = Inr st'"
    by (auto split: sum.splits)
  from Cons.prems(1) have l: "\<not> is_header l" and ls: "list_all (\<lambda>l. \<not> is_header l) ls"
    by simp_all
  from block_step [OF l step Cons.prems(3,4)] obtain d1 where
      top: "read_line (d, None) (strip l) = Inr (d1, None)"
    and d1: "getitem (fst st1) p = Some (VDict d1)" and p: "snd st1 = Some p"
    by blast
  from Cons.IH [OF ls rest p d1] top show ?case by simp
qed

text \<open>
  Claim C9. The file is \<open>A\<close>, a header \<^verbatim>\<open>[name]\<close>, \<open>B\<close>, the same header again, the
  lines \<open>C\<close> of its block (none of them a header) and \<open>R\<close>, which is empty or begins
  with the next header and does not open \<^verbatim>\<open>[name]\<close> a third time. When \<^verbatim>\<open>read\<close>
  returns a mapping, it binds \<open>name\<close> to exactly the mapping that \<^verbatim>\<open>read\<close> gives
  for the lines \<open>C\<close> alone: whatever \<open>B\<close> stored under the first header is gone.
\<close>

theorem read_profile_declared_twice:
  assumes "classify (strip h1) = Header name"
      and "classify (strip h2) = Header name"
      and "list_all (\<lambda>l. \<not> is_header l) C"
      and "closes name R"
      and "read (A @ [h1] @ B @ [h2] @ C @ R) = Inr cfg"
  shows "\<exists>d. read C = Inr d \<and> getitem cfg name = Some (VDict d)"
proof -
  from assms(5) obtain stF where
      all: "read_loop ((A @ [h1] @ B) @ [h2] @ C @ R) ([], None) = Inr stF" and cfg: "cfg = fst stF"
    by (auto simp: read_def split: sum.splits)
  then obtain s1 where "read_loop ([h2] @ C @ R) s1 = Inr stF"
    unfolding read_loop_append [of "A @ [h1] @ B"] by (auto split: sum.splits)
  then have "read_loop (C @ R) (setitem (fst s1) name (VDict []), Some name) = Inr stF"
    using assms(2) by (simp add: read_line_classify)
  then obtain s3 where c: "read_loop C (setitem (fst s1) name (VDict []), Some name) = Inr s3"
    and r: "read_loop R s3 = Inr stF"
    by (auto simp: read_loop_append split: sum.splits)
  from block_alone [OF assms(3) c, of name "[]"] obtain d where
      alone: "read_loop C ([], None) = Inr (d, None)" and d: "getitem (fst s3) name = Some (VDict d)"
    by (auto simp: getitem_setitem)
  from closes_keeps [OF assms(4) r] d cfg have "getitem cfg name = Some (VDict d)"
    by simp
  moreover from alone have "read C = Inr d"
    by (simp add: read_def)
  ultimately show ?thesis by blast
qed

theorem read_profile_declared_twice_witness:
  "read ([''x''] @ [''[P]''] @ [''a = 1'', ''b''] @ [''[P]''] @ [''c = 2''] @ [''[Q]'', ''d''])
     = Inr [(''x'', VBool True), (''P'', VDict [(''c'', VStr ''2'')]), (''Q'', VDict [(''d'', VBool True)])]
   \<and> read [''c = 2''] = Inr [(''c'', VStr ''2'')]
   \<and> getitem [(''x'', VBool True), (''P'', VDict [(''c'', VStr ''2'')]), (''Q'', VDict [(''d'', VBool True)])] ''P''
       = Some (VDict [(''c'', VStr ''2'')])"
proof -
  let ?cfg = "[(''x'', VBool True), (''P'', VDict [(''c'', VStr ''2'')]), (''Q'', VDict [(''d'', VBool True)])]"
  have h: "classify (strip ''[P]'') = Header ''P''"
    by code_simp
  have c: "list_all (\<lambda>l. \<not> is_header l) [''c = 2'']"
    by code_simp
  have r: "closes ''P'' [''[Q]'', ''d'']"
    by code_simp
  have rd: "read ([''x''] @ [''[P]''] @ [''a = 1'', ''b''] @ [''[P]''] @ [''c = 2''] @ [''[Q]'', ''d'']) = Inr ?cfg"
    by code_simp
  have alone: "read [''c = 2''] = Inr [(''c'', VStr ''2'')]"
    by code_simp
  from read_profile_declared_twice [OF h h c r rd] alone
  have "getitem ?cfg ''P'' = Some (VDict [(''c'', VStr ''2'')])"
    by simp
  then show ?thesis using rd alone by blast
qed

section \<open>The keys of the resolved configuration\<close>

lemma list_all_setitem:
  "list_all P d \<Longrightarrow> P (k, v) \<Longrightarrow> list_all P (setitem d k v)"
  by (induction d) auto

lemma getitem_list_all:
  "list_all P d \<Longrightarrow> getitem d k = Some v \<Longrightarrow> P (k, v)"
  by (auto simp: getitem_def list_all_iff dest: map_of_SomeD)

lemma no_dicts_flat: "no_dicts d \<Longrightarrow> flat d"
  by (auto simp: no_dicts_def flat_def list_all_iff split: pyval.splits)

lemma sub_setitem_scoped:
  assumes "scoped st" and "type_of v \<noteq> TDict"
  shows "scoped (sub_setitem st n v)"
proof (cases "snd st")
  case None
  with assms have "no_dicts (setitem (fst st) n v)"
    by (simp add: scoped_def no_dicts_def list_all_setitem)
  then show ?thesis using None by (simp add: scoped_def sub_setitem_def no_dicts_flat)
next
  case (Some p)
  with assms(1) obtain d where d: "getitem (fst st) p = Some (VDict d)" and fl: "flat (fst st)"
    by (auto simp: scoped_def split: option.splits pyval.splits)
  from getitem_list_all [OF fl [unfolded flat_def] d] have "no_dicts d" by simp
  with assms(2) have "no_dicts (setitem d n v)"
    by (simp add: no_dicts_def list_all_setitem)
  with fl have "flat (setitem (fst st) p (VDict (setitem d n v)))"
    by (simp add: flat_def list_all_setitem)
  then show ?thesis
    using Some d by (simp add: scoped_def sub_setitem_def subcfg_def getitem_setitem)
qed

lemma read_line_scoped:
  assumes "scoped st" and "read_line st line = Inr st'"
  shows "scoped st'"
proof (cases "classify line")
  case Skipped
  then show ?thesis using assms by (simp add: read_line_classify)
next
  case (Header n)
  from assms(1) have "flat (setitem (fst st) n (VDict []))"
    by (simp add: scoped_def flat_def no_dicts_def list_all_setitem)
  then show ?thesis
    using Header assms(2) by (auto simp: read_line_classify scoped_def getitem_setitem)
next
  case (Flag n)
  then show ?thesis
    using assms sub_setitem_scoped [of st "VBool True" n] by (auto simp: read_line_classify)
next
  case (Assignment n g)
  then obtain v where st': "st' = assign st n v"
    using assms(2) by (auto simp: read_line_classify split: sum.splits)
  show ?thesis
    unfolding st' assign_sub_setitem
    by (rule sub_setitem_scoped [OF assms(1)]) (simp split: option.splits pyval.splits)
next
  case Ignored
  then show ?thesis using assms by (simp add: read_line_classify)
qed

lemma read_loop_scoped:
  "scoped st \<Longrightarrow> read_loop ls st = Inr st' \<Longrightarrow> scoped st'"
proof (induction ls arbitrary: st)
  case Nil
  then show ?case by simp
next
  case (Cons l ls)
  from Cons.prems(2) obtain st1 where
      step: "read_line st (strip l) = Inr st1" and rest: "read_loop ls st1 = Inr st'"
    by (auto split: sum.splits)
  from read_line_scoped [OF Cons.prems(1) step] Cons.IH rest show ?case by blast
qed

lemma read_flat: "read ls = Inr raw \<Longrightarrow> flat raw"
proof -
  assume "read ls = Inr raw"
  then obtain st where "read_loop ls ([], None) = Inr st" and raw: "raw = fst st"
    by (auto simp: read_def split: sum.splits)
  moreover have "scoped ([], None)"
    by (simp add: scoped_def flat_def no_dicts_def)
  ultimately have "scoped st" using read_loop_scoped by blast
  then show "flat raw" using raw by (simp add: scoped_def)
qed

lemma validate_loop_option:
  assumes "type_of v \<noteq> TDict" and "validate_loop ((n, v) # rest) defaults result = Inr res"
  shows "\<exists>w. type_of w \<noteq> TDict \<and> getitem defaults n \<noteq> None
            \<and> validate_loop rest defaults (setitem result n w) = Inr res"
proof -
  from assms obtain dv where dv: "getitem defaults n = Some dv"
    by (cases v) (auto split: option.splits)
  show ?thesis
  proof (cases "type_of v = type_of dv")
    case True
    with assms dv have "validate_loop rest defaults (setitem result n v) = Inr res"
      by (cases v) simp_all
    with assms(1) dv show ?thesis by blast
  next
    case False
    with assms dv have "validate_loop rest defaults (setitem result n (VList [v])) = Inr res"
      by (cases v) (simp_all split: if_splits)
    moreover have "type_of (VList [v]) \<noteq> TDict" by simp
    ultimately show ?thesis using dv by blast
  qed
qed

lemma validate_loop_keys:
  "no_dicts d \<Longrightarrow> validate_loop d defaults result = Inr res \<Longrightarrow>
   set (keys res) \<subseteq> set (keys result) \<union> set (keys defaults)"
proof (induction d arbitrary: result)
  case Nil
  then show ?case by simp
next
  case (Cons kv d)
  obtain n v where kv: "kv = (n, v)" by (cases kv)
  from Cons.prems(1) kv have nd: "type_of v \<noteq> TDict" and rest: "no_dicts d"
    by (simp_all add: no_dicts_def)
  from validate_loop_option [OF nd] Cons.prems(2) kv obtain w where
      known: "getitem defaults n \<noteq> None"
    and next_call: "validate_loop d defaults (setitem result n w) = Inr res"
    by blast
  from known have "n \<in> set (keys defaults)" using getitem_keys by blast
  with Cons.IH [OF rest next_call] show ?case by (auto simp: keys_setitem)
qed

lemma validate_loop_profiles:
  "flat raw \<Longrightarrow> profiles_within defaults result \<Longrightarrow>
   validate_loop raw defaults result = Inr res \<Longrightarrow> profiles_within defaults res"
proof (induction raw arbitrary: result)
  case Nil
  then show ?case by simp
next
  case (Cons kv raw)
  obtain n v where kv: "kv = (n, v)" by (cases kv)
  from Cons.prems(1) kv have rest: "flat raw" by (simp add: flat_def)
  show ?case
  proof (cases "type_of v = TDict")
    case True
    then obtain d where VDict: "v = VDict d" by (cases v) simp_all
    with Cons.prems(1) kv have nd: "no_dicts d" by (simp add: flat_def)
    from Cons.prems(3) kv VDict obtain r where
        inner: "validate_loop d defaults [] = Inr r"
      and next_call: "validate_loop raw defaults (setitem result n (VDict r)) = Inr res"
      by (auto split: sum.splits)
    from validate_loop_keys [OF nd inner] have "set (keys r) \<subseteq> set (keys defaults)"
      by (simp add: keys_def)
    then have "profiles_within defaults (setitem result n (VDict r))"
      unfolding profiles_within_def
      by (intro list_all_setitem) (use Cons.prems(2) in \<open>auto simp: profiles_within_def list_all_iff\<close>)
    from Cons.IH [OF rest this next_call] show ?thesis .
  next
    case False
    from validate_loop_option [OF False] Cons.prems(3) kv obtain w where nd: "type_of w \<noteq> TDict"
      and next_call: "validate_loop raw defaults (setitem result n w) = Inr res"
      by blast
    from Cons.prems(2) nd have "profiles_within defaults (setitem result n w)"
      by (cases w) (simp_all add: profiles_within_def list_all_setitem)
    from Cons.IH [OF rest this next_call] show ?thesis .
  qed
qed

lemma combine_base_keys:
  "combine_base names cli cfgfile defaults result = Inr res \<Longrightarrow>
   set (keys res) = set (keys result) \<union> set names \<and> (distinct (keys result) \<longrightarrow> distinct (keys res))"
proof (induction names arbitrary: result)
  case Nil
  then show ?case by simp
next
  case (Cons n names)
  from Cons.prems obtain v where "combine_base names cli cfgfile defaults (setitem result n v) = Inr res"
    by (auto split: option.splits)
  from Cons.IH [OF this] show ?case by (auto simp: keys_setitem distinct_setitem)
qed

lemma apply_profile_keys:
  "apply_profile items cli defaults result = Inr res \<Longrightarrow>
   set (keys result) \<subseteq> set (keys res) \<and> set (keys res) \<subseteq> set (keys result) \<union> set (keys items)
   \<and> (distinct (keys result) \<longrightarrow> distinct (keys res))"
proof (induction items arbitrary: result)
  case Nil
  then show ?case by simp
next
  case (Cons kv items)
  obtain n v where kv: "kv = (n, v)" by (cases kv)
  from Cons.prems kv consider
      "apply_profile items cli defaults result = Inr res"
    | "apply_profile items cli defaults (setitem result n v) = Inr res"
    by (auto split: option.splits if_splits)
  then show ?case
  proof cases
    case 1
    from Cons.IH [OF this] kv show ?thesis by (auto simp: keys_def)
  next
    case 2
    from Cons.IH [OF this] kv show ?thesis
      by (auto simp: keys_setitem distinct_setitem) (auto simp: keys_def)
  qed
qed

lemma combine_profiles_keys:
  "profiles_within defaults cfgfile \<Longrightarrow>
   combine_profiles names cli cfgfile defaults result = Inr res \<Longrightarrow>
   set (keys result) \<subseteq> set (keys res) \<and> set (keys res) \<subseteq> set (keys result) \<union> set (keys defaults)
   \<and> (distinct (keys result) \<longrightarrow> distinct (keys res))"
proof (induction names arbitrary: result)
  case Nil
  then show ?case by simp
next
  case (Cons pn names)
  from Cons.prems(2) obtain profile items r1 where
      found: "lookup_profile cfgfile pn = Inr profile"
    and items: "py_items profile = Inr items"
    and applied: "apply_profile items cli defaults result = Inr r1"
    and rest: "combine_profiles names cli cfgfile defaults r1 = Inr res"
    by (auto split: sum.splits)
  from items have profile: "profile = VDict items"
    by (cases profile) simp_all
  from found profile obtain s where "getitem cfgfile s = Some (VDict items)"
    by (cases pn) (auto simp: config_error_def split: option.splits)
  from getitem_list_all [OF Cons.prems(1) [unfolded profiles_within_def] this]
  have within: "set (keys items) \<subseteq> set (keys defaults)"
    by (auto simp: list_all_iff)
  from apply_profile_keys [OF applied] Cons.IH [OF Cons.prems(1) rest] within
  show ?case by blast
qed

text \<open>
  Claim C2, for a file mapping that \<^verbatim>\<open>read\<close> returned for the lines of a file and
  \<^verbatim>\<open>validate\<close> accepted against the schema: whenever \<^verbatim>\<open>combine\<close> returns, the keys
  of the resolved configuration are exactly the keys of the schema, each once. The
  first loop stores every schema key; the profiles of a parsed file hold option values
  only, \<^verbatim>\<open>validate\<close> has checked each of their names against the schema, so the
  second loop stores under schema keys only.
\<close>

theorem combine_keys:
  assumes "read lines = Inr raw"
      and "validate raw defaults = Inr cfgfile"
      and "combine cli cfgfile defaults = Inr res"
  shows "set (keys res) = set (keys defaults) \<and> distinct (keys res)"
proof -
  have "profiles_within defaults []"
    by (simp add: profiles_within_def)
  with read_flat [OF assms(1)] assms(2) have within: "profiles_within defaults cfgfile"
    using validate_loop_profiles by (simp add: validate_def)
  from assms(3) obtain r0 names where
      base: "combine_base (keys defaults) cli cfgfile defaults [] = Inr r0"
    and profiles: "combine_profiles names cli cfgfile defaults r0 = Inr res"
    by (auto simp: combine_def split: sum.splits)
  from combine_base_keys [OF base] have "set (keys r0) = set (keys defaults)" "distinct (keys r0)"
    by (simp_all add: keys_def)
  with combine_profiles_keys [OF within profiles] show ?thesis by blast
qed

theorem combine_keys_witness:
  "read [''comment = c'', ''[P]'', ''verbose'', ''tracker = t''] =
     Inr [(''comment'', VStr ''c''), (''P'', VDict [(''verbose'', VBool True), (''tracker'', VStr ''t'')])]
   \<and> validate [(''comment'', VStr ''c''), (''P'', VDict [(''verbose'', VBool True), (''tracker'', VStr ''t'')])]
        [(''verbose'', VBool False), (''comment'', VStr []), (''tracker'', VList []), (''profile'', VList [])]
     = Inr [(''comment'', VStr ''c''), (''P'', VDict [(''verbose'', VBool True), (''tracker'', VList [VStr ''t''])])]
   \<and> combine [(''profile'', VList [VStr ''P''])]
        [(''comment'', VStr ''c''), (''P'', VDict [(''verbose'', VBool True), (''tracker'', VList [VStr ''t''])])]
        [(''verbose'', VBool False), (''comment'', VStr []), (''tracker'', VList []), (''profile'', VList [])]
     = Inr [(''verbose'', VBool True), (''comment'', VStr ''c''), (''tracker'', VList [VStr ''t'']),
            (''profile'', VList [VStr ''P''])]
   \<and> set (keys [(''verbose'', VBool True), (''comment'', VStr ''c''), (''tracker'', VList [VStr ''t'']),
                 (''profile'', VList [VStr ''P''])])
     = set (keys [(''verbose'', VBool False), (''comment'', VStr []), (''tracker'', VList []),
                  (''profile'', VList [])])"
proof -
  let ?D = "[(''verbose'', VBool False), (''comment'', VStr []), (''tracker'', VList []), (''profile'', VList [])]"
  have r: "read [''comment = c'', ''[P]'', ''verbose'', ''tracker = t''] =
     Inr [(''comment'', VStr ''c''), (''P'', VDict [(''verbose'', VBool True), (''tracker'', VStr ''t'')])]"
    by code_simp
  have v: "validate [(''comment'', VStr ''c''), (''P'', VDict [(''verbose'', VBool True), (''tracker'', VStr ''t'')])] ?D
     = Inr [(''comment'', VStr ''c''), (''P'', VDict [(''verbose'', VBool True), (''tracker'', VList [VStr ''t''])])]"
    by code_simp
  have c: "combine [(''profile'', VList [VStr ''P''])]
        [(''comment'', VStr ''c''), (''P'', VDict [(''verbose'', VBool True), (''tracker'', VList [VStr ''t''])])] ?D
     = Inr [(''verbose'', VBool True), (''comment'', VStr ''c''), (''tracker'', VList [VStr ''t'']),
            (''profile'', VList [VStr ''P''])]"
    by code_simp
  from combine_keys [OF r v c] r v c show ?thesis by blast
qed

end
